theory Spec2Isabelle
  imports Main "HOL-Library.Word"
begin

unbundle bit_operations_syntax

section \<open>The secure settings store of \<open>src/posix/platform/secure_settings.cpp\<close>\<close>

text \<open>
  The store is a file of records \<open>key (uint16_t), length (uint16_t), value (length bytes)\<close>.
  The program reads it through the process-wide descriptor \<open>sSecureSettingsFd\<close>, which is
  assigned by \<open>otPosixSecureSettingsInit\<close> (and reset by \<open>otPosixSecureSettingsDeinit\<close>) and
  by nothing else. It writes only to the file \<open>/tmp/swap\<close>, and installs that file under the
  store's path with \<open>rename\<close>.

  A descriptor refers to the file it was opened on, not to a path: \<open>rename\<close> and \<open>unlink\<close>
  change which file a path names and leave every open descriptor on the file it had. The
  state therefore keeps three files apart: the one behind the descriptor, the one under the
  store's path, and the one under \<open>/tmp/swap\<close>. No file is written to once another name or
  descriptor refers to it, so each is kept as its content.

  What is taken for granted: the descriptor is open (the state is one between Init and
  Deinit); \<open>open\<close>, \<open>lseek\<close>, \<open>fsync\<close>, \<open>close\<close> and \<open>rename\<close> succeed; \<open>read\<close> delivers
  the bytes that the file has at the position. \<open>write\<close> may come up short.
\<close>

subsection \<open>Data\<close>

type_synonym byte = "8 word"
type_synonym u16 = "16 word"

text \<open>
  Of the errors of \<open>otError\<close>, Get and Delete return only these two; the \<open>default\<close>
  branch of the \<open>switch\<close> in Set is therefore never taken.
\<close>

datatype otError = OT_ERROR_NONE | OT_ERROR_NOT_FOUND

record posix_state =
  fd_file :: "byte list"
    \<comment> \<open>content of the file that \<open>sSecureSettingsFd\<close> is open on\<close>
  data_file :: "byte list option"
    \<comment> \<open>content of the file that the store's path names; \<open>None\<close> when the path names nothing\<close>
  swap_file :: "byte list option"
    \<comment> \<open>content of \<open>/tmp/swap\<close>; \<open>None\<close> when that path names nothing\<close>
  swap_limit :: nat
    \<comment> \<open>the size up to which \<open>/tmp/swap\<close> can grow; a \<open>write\<close> beyond it comes up short\<close>
  stack_junk :: "byte list"
    \<comment> \<open>what lies in the stack slot of the uninitialised \<open>buffer[512]\<close> of Delete\<close>

subsection \<open>System calls\<close>

text \<open>
  \<open>read(fd, buf, n)\<close> on a regular file at position \<open>pos\<close> delivers the bytes that are
  there, at most \<open>n\<close> of them; its return value is their number and the position advances by
  it. \<open>lseek(fd, n, SEEK_CUR)\<close> returns \<open>pos + n\<close>, also beyond the end of the file.
\<close>

definition fd_read :: "byte list \<Rightarrow> nat \<Rightarrow> nat \<Rightarrow> byte list" where
  "fd_read f pos n = take n (drop pos f)"

text \<open>\<open>write\<close> appends to the swap file as far as the limit allows and returns the count.\<close>

definition fd_write :: "nat \<Rightarrow> byte list \<Rightarrow> byte list \<Rightarrow> byte list \<times> nat" where
  "fd_write lim file bs =
     (let n = min (length bs) (lim - length file) in (file @ take n bs, n))"

text \<open>Reading into a buffer overwrites its first bytes and leaves the rest as it was.\<close>

definition buf_store :: "byte list \<Rightarrow> byte list \<Rightarrow> byte list" where
  "buf_store got buf = got @ drop (length got) buf"

text \<open>
  A \<open>uint16_t\<close> is written and read in the byte order of the host, which is taken to be
  little-endian here.
\<close>

definition u16_bytes :: "u16 \<Rightarrow> byte list" where
  "u16_bytes w = [ucast w, ucast (drop_bit 8 w)]"

definition bytes_u16 :: "byte list \<Rightarrow> u16" where
  "bytes_u16 bs = ucast (bs ! 0) OR push_bit 8 (ucast (bs ! 1))"

subsection \<open>otPosixSecureSettingsGet\<close>

text \<open>
  The out-parameters: \<open>aValue\<close> is \<open>None\<close> for a null pointer and the caller's buffer
  otherwise; \<open>aValueLength\<close> is \<open>None\<close> for a null pointer and the pointee otherwise. The
  result is the error and both as they are on return. \<open>aIndex\<close> is an \<open>int\<close>; it only
  ever counts down by one per record, so it is modelled without overflow.
\<close>

type_synonym get_result = "otError \<times> byte list option \<times> u16 option"

function Get_loop ::
  "byte list \<Rightarrow> nat \<Rightarrow> nat \<Rightarrow> u16 \<Rightarrow> int \<Rightarrow> byte list option \<Rightarrow> u16 option \<Rightarrow> get_result"
where
  "Get_loop f offset pos aKey aIndex aValue aValueLength =
    (if offset < length f then
       (let kb = fd_read f pos 2 in
        if length kb \<noteq> 2 then (OT_ERROR_NOT_FOUND, aValue, aValueLength)
        else
          (let lb = fd_read f (pos + 2) 2 in
           if length lb \<noteq> 2 then (OT_ERROR_NOT_FOUND, aValue, aValueLength)
           else
             (let key = bytes_u16 kb; len = bytes_u16 lb in
              if key = aKey \<and> aIndex = 0 then
                (case aValueLength of
                   None \<Rightarrow> (OT_ERROR_NONE, aValue, None)
                 | Some cap \<Rightarrow>
                     (case aValue of
                        None \<Rightarrow> (OT_ERROR_NONE, None, Some len)
                      | Some buf \<Rightarrow>
                          (let readLength = (if len \<le> cap then len else cap);
                               got = fd_read f (pos + 4) (unat readLength)
                           in if length got \<noteq> unat readLength
                              then (OT_ERROR_NONE, Some (buf_store got buf), Some cap)
                              else (OT_ERROR_NONE, Some (buf_store got buf), Some len))))
              else
                (let aIndex' = (if key = aKey then aIndex - 1 else aIndex);
                     offset' = offset + 4 + unat len;
                     pos' = pos + 4 + unat len
                 in if offset' \<noteq> pos' then (OT_ERROR_NOT_FOUND, aValue, aValueLength)
                    else Get_loop f offset' pos' aKey aIndex' aValue aValueLength))))
     else (OT_ERROR_NOT_FOUND, aValue, aValueLength))"
  by pat_completeness auto
termination
  by (relation "measure (\<lambda>(f, offset, pos, aKey, aIndex, aValue, aValueLength). length f - offset)")
     auto

declare Get_loop.simps [simp del]

definition otPosixSecureSettingsGet ::
  "posix_state \<Rightarrow> u16 \<Rightarrow> int \<Rightarrow> byte list option \<Rightarrow> u16 option \<Rightarrow> get_result"
where
  "otPosixSecureSettingsGet s aKey aIndex aValue aValueLength =
     Get_loop (fd_file s) 0 0 aKey aIndex aValue aValueLength"

subsection \<open>otPosixSecureSettingsDelete\<close>

text \<open>
  The inner loop copies one payload in chunks of at most 512 bytes. \<open>length\<close> is passed as
  a natural number: \<open>count\<close> never exceeds it, so \<open>length -= count\<close> does not wrap. The loop
  accepts any read of at least one byte, then writes \<open>count\<close> bytes of the buffer. The result
  says whether the loop ran to its end, and gives the position, the buffer and the swap file.
\<close>

function Delete_copy ::
  "byte list \<Rightarrow> nat \<Rightarrow> nat \<Rightarrow> byte list \<Rightarrow> nat \<Rightarrow> byte list \<Rightarrow> bool \<times> nat \<times> byte list \<times> byte list"
where
  "Delete_copy f pos len buffer lim swap =
    (if 0 < len then
       (let count = (if 512 \<le> len then 512 else len);
            got = fd_read f pos count;
            rval = length got
        in if \<not> 0 < rval then (False, pos, buffer, swap)
           else
             (let buffer' = buf_store got buffer;
                  (swap', wrote) = fd_write lim swap (take count buffer')
              in if wrote \<noteq> count then (False, pos + rval, buffer', swap')
                 else Delete_copy f (pos + rval) (len - count) buffer' lim swap'))
     else (True, pos, buffer, swap))"
  by pat_completeness auto
termination
  by (relation "measure (\<lambda>(f, pos, len, buffer, lim, swap). len)") auto

declare Delete_copy.simps [simp del]

text \<open>
  The outer loop. Its result says whether it ran to its end (and so reaches \<open>rename\<close>) or
  left through \<open>exit\<close>, and gives \<open>error\<close> and the swap file.
\<close>

function Delete_loop ::
  "byte list \<Rightarrow> nat \<Rightarrow> nat \<Rightarrow> u16 \<Rightarrow> int \<Rightarrow> otError \<Rightarrow> byte list \<Rightarrow> nat \<Rightarrow> byte list
     \<Rightarrow> bool \<times> otError \<times> byte list"
where
  "Delete_loop f offset pos aKey aIndex error buffer lim swap =
    (if offset < length f then
       (let kb = fd_read f pos 2 in
        if length kb \<noteq> 2 then (False, error, swap)
        else
          (let lb = fd_read f (pos + 2) 2 in
           if length lb \<noteq> 2 then (False, error, swap)
           else
             (let key = bytes_u16 kb; len = bytes_u16 lb;
                  offset' = offset + 4 + unat len
              in if aKey = key \<and> aIndex = 0 then
                   (if offset' \<noteq> pos + 4 + unat len then (False, error, swap)
                    else Delete_loop f offset' (pos + 4 + unat len) aKey aIndex OT_ERROR_NONE
                           buffer lim swap)
                 else if aKey = key \<and> aIndex = - 1 then
                   (if offset' \<noteq> pos + 4 + unat len then (False, error, swap)
                    else Delete_loop f offset' (pos + 4 + unat len) aKey aIndex OT_ERROR_NONE
                           buffer lim swap)
                 else
                   (let aIndex' = (if aKey = key then aIndex - 1 else aIndex);
                        (swap1, n1) = fd_write lim swap (u16_bytes key)
                    in if n1 \<noteq> 2 then (False, error, swap1)
                       else
                         (let (swap2, n2) = fd_write lim swap1 (u16_bytes len)
                          in if n2 \<noteq> 2 then (False, error, swap2)
                             else
                               (case Delete_copy f (pos + 4) (unat len) buffer lim swap2 of
                                  (ok, pos', buffer', swap3) \<Rightarrow>
                                    if \<not> ok then (False, error, swap3)
                                    else Delete_loop f offset' pos' aKey aIndex' error
                                           buffer' lim swap3))))))
     else (True, error, swap))"
  by pat_completeness auto
termination
  by (relation "measure (\<lambda>(f, offset, pos, aKey, aIndex, error, buffer, lim, swap). length f - offset)")
     auto

declare Delete_loop.simps [simp del]

text \<open>
  Delete opens \<open>/tmp/swap\<close> truncated, runs the loop over the file behind the descriptor, and
  when the loop ran to its end renames the swap file to the store's path. Through \<open>exit\<close> the
  swap file stays where it is. The descriptor stays on the file it was opened on. The
  buffer starts as the 512 bytes that the stack holds: \<open>stack_junk\<close>, cut or filled up with
  zeros to that size.
\<close>

definition otPosixSecureSettingsDelete :: "posix_state \<Rightarrow> u16 \<Rightarrow> int \<Rightarrow> otError \<times> posix_state" where
  "otPosixSecureSettingsDelete s aKey aIndex =
     (case Delete_loop (fd_file s) 0 0 aKey aIndex OT_ERROR_NOT_FOUND
             (take 512 (stack_junk s @ replicate 512 0)) (swap_limit s) [] of
        (finished, error, swap) \<Rightarrow>
          if finished then (error, s\<lparr>data_file := Some swap, swap_file := None\<rparr>)
          else (error, s\<lparr>swap_file := Some swap\<rparr>))"

subsection \<open>otPosixSecureSettingsSet, otPosixSecureSettingsAdd\<close>

text \<open>
  Set deletes every occurrence of the key, whatever Delete returns, then opens \<open>/tmp/swap\<close>
  truncated, writes the one record and renames. A short write ends the process
  (\<open>VerifyOrDie\<close>): the result is \<open>None\<close>. \<open>aValue\<close> is the caller's buffer, of which
  \<open>aValueLength\<close> bytes are written.
\<close>

definition otPosixSecureSettingsSet ::
  "posix_state \<Rightarrow> u16 \<Rightarrow> byte list \<Rightarrow> u16 \<Rightarrow> (otError \<times> posix_state) option"
where
  "otPosixSecureSettingsSet s aKey aValue aValueLength =
     (let s1 = snd (otPosixSecureSettingsDelete s aKey (- 1));
          (w1, n1) = fd_write (swap_limit s1) [] (u16_bytes aKey);
          (w2, n2) = fd_write (swap_limit s1) w1 (u16_bytes aValueLength);
          (w3, n3) = fd_write (swap_limit s1) w2 (take (unat aValueLength) aValue)
      in if n1 = 2 \<and> n2 = 2 \<and> n3 = unat aValueLength
         then Some (OT_ERROR_NONE, s1\<lparr>data_file := Some w3, swap_file := None\<rparr>)
         else None)"

definition otPosixSecureSettingsAdd ::
  "posix_state \<Rightarrow> u16 \<Rightarrow> byte list \<Rightarrow> u16 \<Rightarrow> (otError \<times> posix_state) option"
where
  "otPosixSecureSettingsAdd s aKey aValue aValueLength =
     otPosixSecureSettingsSet s aKey aValue aValueLength"

subsection \<open>otPosixSecureSettingsInit, otPosixSecureSettingsWipe\<close>

text \<open>
  Init opens the file that the store's path names, creating it empty when the path names
  nothing; from then on the descriptor is on that file. Its loop only reads. Wipe unlinks
  the path.
\<close>

definition otPosixSecureSettingsInit :: "posix_state \<Rightarrow> posix_state" where
  "otPosixSecureSettingsInit s =
     (let bytes = (case data_file s of None \<Rightarrow> [] | Some b \<Rightarrow> b)
      in s\<lparr>fd_file := bytes, data_file := Some bytes\<rparr>)"

definition otPosixSecureSettingsWipe :: "posix_state \<Rightarrow> posix_state" where
  "otPosixSecureSettingsWipe s = s\<lparr>data_file := None\<rparr>"

subsection \<open>Well-formed stores\<close>

text \<open>
  A record is a key and its value bytes. Its encoding is what Set writes: the key, the
  length of the value, the value. A store is well-formed when its file is the encodings of
  a list of records, one after the other, each value short enough for the length field.
\<close>

type_synonym entry = "u16 \<times> byte list"

definition encode_record :: "entry \<Rightarrow> byte list" where
  "encode_record r = u16_bytes (fst r) @ u16_bytes (of_nat (length (snd r))) @ snd r"

definition encode_store :: "entry list \<Rightarrow> byte list" where
  "encode_store rs = concat (map encode_record rs)"

definition valid_store :: "entry list \<Rightarrow> bool" where
  "valid_store rs = list_all (\<lambda>r. length (snd r) \<le> 65535) rs"

text \<open>The values stored under a key, in file order: occurrence \<open>n\<close> is element \<open>n\<close>.\<close>

definition values_of :: "u16 \<Rightarrow> entry list \<Rightarrow> byte list list" where
  "values_of k rs = map snd (filter (\<lambda>r. fst r = k) rs)"

text \<open>
  The state in which the descriptor is on a file holding the records \<open>opened\<close> and the
  store's path names a file holding the records \<open>named\<close>, with room for a swap file of
  1024 bytes. Right after Init the two files are the same one.
\<close>

definition store_state :: "entry list \<Rightarrow> entry list \<Rightarrow> posix_state" where
  "store_state opened named =
     \<lparr>fd_file = encode_store opened, data_file = Some (encode_store named),
      swap_file = None, swap_limit = 1024, stack_junk = []\<rparr>"

subsection \<open>The loops, record by record\<close>

text \<open>
  What Get hands back for a record whose value \<open>v\<close> is all there, and for a last record
  of which only the bytes \<open>p\<close> follow the header that declares \<open>len\<close>.
\<close>

definition deliver :: "byte list \<Rightarrow> byte list option \<Rightarrow> u16 option \<Rightarrow> get_result" where
  "deliver v aValue aValueLength =
     (case aValueLength of
        None \<Rightarrow> (OT_ERROR_NONE, aValue, None)
      | Some cap \<Rightarrow>
          (case aValue of
             None \<Rightarrow> (OT_ERROR_NONE, None, Some (of_nat (length v)))
           | Some buf \<Rightarrow>
               (OT_ERROR_NONE, Some (buf_store (take (unat cap) v) buf), Some (of_nat (length v)))))"

definition deliver_short :: "u16 \<Rightarrow> byte list \<Rightarrow> byte list option \<Rightarrow> u16 option \<Rightarrow> get_result" where
  "deliver_short len p aValue aValueLength =
     (case aValueLength of
        None \<Rightarrow> (OT_ERROR_NONE, aValue, None)
      | Some cap \<Rightarrow>
          (case aValue of
             None \<Rightarrow> (OT_ERROR_NONE, None, Some len)
           | Some buf \<Rightarrow>
               if unat cap \<le> length p
               then (OT_ERROR_NONE, Some (buf_store (take (unat cap) p) buf), Some len)
               else (OT_ERROR_NONE, Some (buf_store p buf), Some cap)))"

text \<open>
  The branches of the loop of Delete, on records instead of bytes: which records it copies
  and which error it ends with.
\<close>

fun del_records :: "int \<Rightarrow> u16 \<Rightarrow> entry list \<Rightarrow> entry list" where
  "del_records i k [] = []"
| "del_records i k (r # rs) =
     (if fst r = k then
        (if i = 0 \<or> i = - 1 then del_records i k rs else r # del_records (i - 1) k rs)
      else r # del_records i k rs)"

fun del_error :: "int \<Rightarrow> u16 \<Rightarrow> entry list \<Rightarrow> otError \<Rightarrow> otError" where
  "del_error i k [] e = e"
| "del_error i k (r # rs) e =
     (if fst r = k then
        (if i = 0 \<or> i = - 1 then del_error i k rs OT_ERROR_NONE else del_error (i - 1) k rs e)
      else del_error i k rs e)"

text \<open>
  The store that the specification describes for \<open>delete(key, n)\<close>: the first \<open>n\<close>
  occurrences of the key stay, every later occurrence goes, the records of other keys stay.
\<close>

fun keep_first :: "nat \<Rightarrow> u16 \<Rightarrow> entry list \<Rightarrow> entry list" where
  "keep_first n k [] = []"
| "keep_first n k (r # rs) =
     (if fst r = k then (case n of 0 \<Rightarrow> keep_first 0 k rs | Suc m \<Rightarrow> r # keep_first m k rs)
      else r # keep_first n k rs)"

section \<open>Basic facts\<close>

subsection \<open>Bytes, reads and writes\<close>

lemma length_u16_bytes [simp]: "length (u16_bytes w) = 2"
  by (simp add: u16_bytes_def)

lemma bytes_u16_u16_bytes [simp]: "bytes_u16 (u16_bytes w) = w"
  unfolding bytes_u16_def u16_bytes_def
  apply simp
  apply (rule bit_word_eqI)
  apply (auto simp add: bit_simps)
  done

lemma unat_len16: "n \<le> 65535 \<Longrightarrow> unat (of_nat n :: u16) = n"
  by (simp add: unat_of_nat)

lemma fd_read_shift: "fd_read (pre @ f) (length pre + p) n = fd_read f p n"
  by (simp add: fd_read_def)

lemma fd_read_key: "fd_read (pre @ u16_bytes k @ rest) (length pre) 2 = u16_bytes k"
  by (simp add: fd_read_def)

lemma fd_read_len:
  "fd_read (pre @ u16_bytes k @ u16_bytes l @ rest) (length pre + 2) 2 = u16_bytes l"
  by (simp add: fd_read_def)

lemma fd_read_payload:
  "fd_read (pre @ u16_bytes k @ u16_bytes l @ rest) (length pre + 4) n = take n rest"
  by (simp add: fd_read_def)

lemma length_encode_record [simp]: "length (encode_record r) = 4 + length (snd r)"
  by (simp add: encode_record_def)

subsection \<open>The loop of Get on complete records\<close>

lemma Get_loop_record:
  assumes "length (snd r) \<le> 65535"
  shows "Get_loop (pre @ encode_record r @ rest) (length pre) (length pre) aKey aIndex aValue aValueLength =
     (if fst r = aKey \<and> aIndex = 0 then deliver (snd r) aValue aValueLength
      else Get_loop (pre @ encode_record r @ rest) (length pre + length (encode_record r))
             (length pre + length (encode_record r)) aKey
             (if fst r = aKey then aIndex - 1 else aIndex) aValue aValueLength)"
proof -
  let ?l = "of_nat (length (snd r)) :: u16"
  have f: "pre @ encode_record r @ rest = pre @ u16_bytes (fst r) @ u16_bytes ?l @ snd r @ rest"
    by (simp add: encode_record_def)
  have ul: "unat ?l = length (snd r)"
    using assms by (rule unat_len16)
  have tk: "take (unat (if ?l \<le> cap then ?l else cap)) (snd r @ rest) = take (unat cap) (snd r)" for cap
    by (auto simp: ul word_le_nat_alt not_le)
  have ln: "length (take (unat cap) (snd r)) = unat (if ?l \<le> cap then ?l else cap)" for cap
    by (auto simp: ul word_le_nat_alt not_le)
  show ?thesis
    apply (subst Get_loop.simps)
    apply (simp only: f fd_read_key fd_read_len fd_read_payload Let_def bytes_u16_u16_bytes tk)
    apply (simp only: ln [symmetric])
    apply (simp add: ul deliver_def add.assoc split: option.splits)
    done
qed

lemma encode_store_Nil [simp]: "encode_store [] = []"
  by (simp add: encode_store_def)

lemma encode_store_Cons [simp]: "encode_store (r # rs) = encode_record r @ encode_store rs"
  by (simp add: encode_store_def)

lemma valid_store_Cons [simp]:
  "valid_store (r # rs) \<longleftrightarrow> length (snd r) \<le> 65535 \<and> valid_store rs"
  by (simp add: valid_store_def)

lemma valid_store_Nil [simp]: "valid_store []"
  by (simp add: valid_store_def)

lemma Get_loop_records:
  "valid_store rs \<Longrightarrow>
   Get_loop (pre @ encode_store rs @ tail) (length pre) (length pre) aKey aIndex aValue aValueLength =
     (if 0 \<le> aIndex \<and> nat aIndex < length (values_of aKey rs)
      then deliver (values_of aKey rs ! nat aIndex) aValue aValueLength
      else Get_loop (pre @ encode_store rs @ tail) (length pre + length (encode_store rs))
             (length pre + length (encode_store rs)) aKey
             (aIndex - int (length (values_of aKey rs))) aValue aValueLength)"
proof (induction rs arbitrary: pre aIndex)
  case Nil
  then show ?case by (simp add: values_of_def)
next
  case (Cons r rs)
  then have len: "length (snd r) \<le> 65535" and v: "valid_store rs"
    by simp_all
  have ih: "Get_loop ((pre @ encode_record r) @ encode_store rs @ tail)
              (length (pre @ encode_record r)) (length (pre @ encode_record r)) aKey i aValue aValueLength =
     (if 0 \<le> i \<and> nat i < length (values_of aKey rs)
      then deliver (values_of aKey rs ! nat i) aValue aValueLength
      else Get_loop ((pre @ encode_record r) @ encode_store rs @ tail)
             (length (pre @ encode_record r) + length (encode_store rs))
             (length (pre @ encode_record r) + length (encode_store rs)) aKey
             (i - int (length (values_of aKey rs))) aValue aValueLength)" for i
    by (rule Cons.IH [OF v])
  have step: "Get_loop (pre @ encode_store (r # rs) @ tail) (length pre) (length pre) aKey aIndex aValue aValueLength =
     (if fst r = aKey \<and> aIndex = 0 then deliver (snd r) aValue aValueLength
      else Get_loop ((pre @ encode_record r) @ encode_store rs @ tail) (length (pre @ encode_record r))
             (length (pre @ encode_record r)) aKey
             (if fst r = aKey then aIndex - 1 else aIndex) aValue aValueLength)"
    using Get_loop_record [OF len, of pre "encode_store rs @ tail" aKey aIndex aValue aValueLength]
    by simp
  show ?case
  proof (cases "fst r = aKey")
    case False
    then show ?thesis
      unfolding step ih by (simp add: values_of_def add.assoc)
  next
    case True
    show ?thesis
    proof (cases "aIndex = 0")
      case True
      with \<open>fst r = aKey\<close> show ?thesis
        unfolding step by (simp add: values_of_def)
    next
      case False
      have nth: "0 < aIndex \<Longrightarrow> (snd r # values_of aKey rs) ! nat aIndex = values_of aKey rs ! nat (aIndex - 1)"
        by (simp add: nth_Cons' nat_diff_distrib)
      have vs: "values_of aKey (r # rs) = snd r # values_of aKey rs"
        using \<open>fst r = aKey\<close> by (simp add: values_of_def)
      have idx: "aIndex - int (length (snd r # values_of aKey rs)) = aIndex - 1 - int (length (values_of aKey rs))"
        by simp
      have cond: "(0 \<le> aIndex \<and> nat aIndex < length (snd r # values_of aKey rs)) =
                  (0 \<le> aIndex - 1 \<and> nat (aIndex - 1) < length (values_of aKey rs))"
        using False by auto
      show ?thesis
        unfolding step ih vs idx cond using False \<open>fst r = aKey\<close> nth
        by (auto simp: add.assoc)
    qed
  qed
qed

subsection \<open>The loops of Delete on complete records\<close>

lemma fd_write_fits:
  "length file + length bs \<le> lim \<Longrightarrow> fd_write lim file bs = (file @ bs, length bs)"
  by (simp add: fd_write_def)

lemma Delete_copy_full:
  "length swap + length v \<le> lim \<Longrightarrow>
   \<exists>buffer'. Delete_copy (pre @ v @ rest) (length pre) (length v) buffer lim swap =
     (True, length pre + length v, buffer', swap @ v)"
proof (induction "length v" arbitrary: v pre buffer swap rule: less_induct)
  case less
  show ?case
  proof (cases "v = []")
    case True
    then show ?thesis by (subst Delete_copy.simps) simp
  next
    case False
    define count where "count = (if 512 \<le> length v then 512 else length v)"
    have c: "0 < count" "count \<le> length v"
      using False by (auto simp: count_def)
    define got where "got = take count v"
    have got: "fd_read (pre @ v @ rest) (length pre) count = got" "length got = count"
      using c by (simp_all add: fd_read_def got_def)
    have tk: "take count (buf_store got buffer) = got"
      by (simp add: buf_store_def got)
    have w: "fd_write lim swap got = (swap @ got, count)"
      using less.prems c got by (intro fd_write_fits [THEN trans]) auto
    have split: "pre @ v @ rest = (pre @ got) @ drop count v @ rest"
      by (simp add: got_def)
    have "length (drop count v) < length v"
      using c by simp
    moreover have "length (swap @ got) + length (drop count v) \<le> lim"
      using less.prems c got by simp
    ultimately obtain b' where ih:
      "Delete_copy ((pre @ got) @ drop count v @ rest) (length (pre @ got)) (length (drop count v))
         (buf_store got buffer) lim (swap @ got) =
       (True, length (pre @ got) + length (drop count v), b', (swap @ got) @ drop count v)"
      using less.hyps by blast
    have "Delete_copy (pre @ v @ rest) (length pre) (length v) buffer lim swap =
          Delete_copy (pre @ v @ rest) (length pre + count) (length v - count)
            (buf_store got buffer) lim (swap @ got)"
      apply (subst Delete_copy.simps)
      using False c
      apply (simp only: count_def [symmetric] Let_def got tk w)
      apply simp
      done
    also have "\<dots> = (True, length pre + length v, b', swap @ v)"
      using ih c got unfolding split [symmetric] by (simp add: got_def)
    finally show ?thesis by blast
  qed
qed

lemma Delete_loop_end:
  "length f \<le> offset \<Longrightarrow> Delete_loop f offset pos k i e buffer lim swap = (True, e, swap)"
  by (subst Delete_loop.simps) simp

lemma Delete_loop_records:
  "valid_store rs \<Longrightarrow> length swap + length (encode_store (del_records i k rs)) \<le> lim \<Longrightarrow>
   Delete_loop (pre @ encode_store rs) (length pre) (length pre) k i e buffer lim swap =
     (True, del_error i k rs e, swap @ encode_store (del_records i k rs))"
proof (induction rs arbitrary: pre i e buffer swap)
  case Nil
  show ?case by (simp add: Delete_loop_end)
next
  case (Cons r rs)
  let ?l = "of_nat (length (snd r)) :: u16"
  let ?f = "pre @ encode_store (r # rs)"
  let ?n = "length pre + 4 + length (snd r)"
  from Cons.prems have len: "length (snd r) \<le> 65535" and v: "valid_store rs"
    by simp_all
  have f: "?f = pre @ u16_bytes (fst r) @ u16_bytes ?l @ snd r @ encode_store rs"
    by (simp add: encode_record_def)
  have f': "?f = (pre @ encode_record r) @ encode_store rs"
    by simp
  have n: "length (pre @ encode_record r) = ?n"
    by simp
  have ul: "unat ?l = length (snd r)"
    using len by (rule unat_len16)
  have lt: "length pre < length ?f"
    by simp
  show ?case
  proof (cases "fst r = k \<and> (i = 0 \<or> i = - 1)")
    case True
    then have lim: "length swap + length (encode_store (del_records i k rs)) \<le> lim"
      using Cons.prems(2) by simp
    have "Delete_loop ?f (length pre) (length pre) k i e buffer lim swap =
          Delete_loop ?f ?n ?n k i OT_ERROR_NONE buffer lim swap"
      apply (subst Delete_loop.simps)
      apply (simp only: lt if_True)
      apply (simp only: f fd_read_key fd_read_len Let_def bytes_u16_u16_bytes ul)
      using True apply auto
      done
    also have "\<dots> = (True, del_error i k rs OT_ERROR_NONE, swap @ encode_store (del_records i k rs))"
      unfolding f' n [symmetric] by (rule Cons.IH [OF v lim])
    finally show ?thesis using True by simp
  next
    case False
    let ?i' = "if fst r = k then i - 1 else i"
    have dr: "del_records i k (r # rs) = r # del_records ?i' k rs"
      and de: "del_error i k (r # rs) e = del_error ?i' k rs e"
      using False by auto
    have lim: "length (swap @ encode_record r) + length (encode_store (del_records ?i' k rs)) \<le> lim"
      using Cons.prems(2) unfolding dr by simp
    have w1: "fd_write lim swap (u16_bytes (fst r)) = (swap @ u16_bytes (fst r), 2)"
      using lim by (intro fd_write_fits [THEN trans]) auto
    have w2: "fd_write lim (swap @ u16_bytes (fst r)) (u16_bytes ?l) =
                (swap @ u16_bytes (fst r) @ u16_bytes ?l, 2)"
      using lim by (intro fd_write_fits [THEN trans]) auto
    have "length (swap @ u16_bytes (fst r) @ u16_bytes ?l) + length (snd r) \<le> lim"
      using lim by simp
    from Delete_copy_full [OF this, of "pre @ u16_bytes (fst r) @ u16_bytes ?l" "encode_store rs" buffer]
    obtain b' where cp:
      "Delete_copy (pre @ u16_bytes (fst r) @ u16_bytes ?l @ snd r @ encode_store rs) (length pre + 4)
         (length (snd r)) buffer lim (swap @ u16_bytes (fst r) @ u16_bytes ?l) =
       (True, ?n, b', swap @ encode_record r)"
      by (auto simp: encode_record_def add.assoc)
    have "Delete_loop ?f (length pre) (length pre) k i e buffer lim swap =
          Delete_loop ?f ?n ?n k ?i' e b' lim (swap @ encode_record r)"
      apply (subst Delete_loop.simps)
      apply (simp only: lt if_True)
      apply (simp only: f fd_read_key fd_read_len Let_def bytes_u16_u16_bytes ul w1 w2 prod.case
               append_assoc cp)
      using False apply auto
      done
    also have "\<dots> = (True, del_error ?i' k rs e, (swap @ encode_record r) @ encode_store (del_records ?i' k rs))"
      unfolding f' n [symmetric] by (rule Cons.IH [OF v lim])
    finally show ?thesis unfolding dr de by simp
  qed
qed

subsection \<open>The calls on a well-formed store\<close>

lemma Get_loop_end:
  "length f \<le> offset \<Longrightarrow>
   Get_loop f offset pos k i aValue aValueLength = (OT_ERROR_NOT_FOUND, aValue, aValueLength)"
  by (subst Get_loop.simps) simp

lemma Get_records:
  assumes "valid_store rs" and "fd_file s = encode_store rs"
  shows "otPosixSecureSettingsGet s k i aValue aValueLength =
     (if 0 \<le> i \<and> nat i < length (values_of k rs)
      then deliver (values_of k rs ! nat i) aValue aValueLength
      else (OT_ERROR_NOT_FOUND, aValue, aValueLength))"
  using Get_loop_records [OF assms(1), of "[]" "[]" k i aValue aValueLength]
  by (simp add: otPosixSecureSettingsGet_def assms(2) Get_loop_end)

lemma length_del_records:
  "length (encode_store (del_records i k rs)) \<le> length (encode_store rs)"
  by (induction i k rs rule: del_records.induct) auto

lemma Delete_records:
  assumes "valid_store rs" and "fd_file s = encode_store rs"
    and "length (fd_file s) \<le> swap_limit s"
  shows "otPosixSecureSettingsDelete s k i =
     (del_error i k rs OT_ERROR_NOT_FOUND,
      s\<lparr>data_file := Some (encode_store (del_records i k rs)), swap_file := None\<rparr>)"
proof -
  have "length ([] :: byte list) + length (encode_store (del_records i k rs)) \<le> swap_limit s"
    using length_del_records [of i k rs] assms(2,3) by simp
  from Delete_loop_records [OF assms(1) this, of "[]"]
  show ?thesis
    by (simp add: otPosixSecureSettingsDelete_def assms(2))
qed

lemma Delete_fd_file [simp]: "fd_file (snd (otPosixSecureSettingsDelete s k i)) = fd_file s"
  by (simp add: otPosixSecureSettingsDelete_def split: prod.splits)

lemma Delete_swap_limit [simp]: "swap_limit (snd (otPosixSecureSettingsDelete s k i)) = swap_limit s"
  by (simp add: otPosixSecureSettingsDelete_def split: prod.splits)

lemma Get_after_Delete_unchanged:
  "otPosixSecureSettingsGet (snd (otPosixSecureSettingsDelete s k i)) k' i' aValue aValueLength =
   otPosixSecureSettingsGet s k' i' aValue aValueLength"
  by (simp add: otPosixSecureSettingsGet_def)

lemma Set_writes:
  "length c \<le> m \<Longrightarrow>
   (case fd_write L [] a of (w1, n1) \<Rightarrow>
      case fd_write L w1 b of (w2, n2) \<Rightarrow>
        case fd_write L w2 c of (w3, n3) \<Rightarrow>
          if n1 = length a \<and> n2 = length b \<and> n3 = m then Some (g w3) else None) =
   (if length a + length b + m \<le> L \<and> m = length c then Some (g (a @ b @ c)) else None)"
  by (auto simp add: fd_write_def Let_def min_def)

lemma Set_eq:
  "otPosixSecureSettingsSet s k v l =
     (if 4 + unat l \<le> swap_limit s \<and> unat l \<le> length v
      then Some (OT_ERROR_NONE,
             (snd (otPosixSecureSettingsDelete s k (- 1)))
               \<lparr>data_file := Some (u16_bytes k @ u16_bytes l @ take (unat l) v), swap_file := None\<rparr>)
      else None)"
proof -
  have m: "unat l = min (length v) (unat l) \<longleftrightarrow> unat l \<le> length v"
    by auto
  show ?thesis
    unfolding otPosixSecureSettingsSet_def Let_def Delete_swap_limit
    using Set_writes [where L = "swap_limit s" and a = "u16_bytes k" and b = "u16_bytes l"
        and m = "unat l" and c = "take (unat l) v"
        and g = "\<lambda>w. (OT_ERROR_NONE, (snd (otPosixSecureSettingsDelete s k (- 1)))\<lparr>data_file := Some w, swap_file := None\<rparr>)"]
    by (simp add: m)
qed

subsection \<open>Which records a deletion keeps\<close>

lemma Get_after_Set_unchanged:
  "otPosixSecureSettingsSet s k v l = Some (e, s') \<Longrightarrow>
   otPosixSecureSettingsGet s' k' i' aValue aValueLength =
   otPosixSecureSettingsGet s k' i' aValue aValueLength"
  by (auto simp add: Set_eq otPosixSecureSettingsGet_def split: if_splits)

lemma del_records_all: "i = 0 \<or> i = - 1 \<Longrightarrow> del_records i k rs = filter (\<lambda>r. fst r \<noteq> k) rs"
  by (induction rs) auto

lemma keep_first_0: "keep_first 0 k rs = filter (\<lambda>r. fst r \<noteq> k) rs"
  by (induction rs) auto

lemma del_records_nat: "del_records (int n) k rs = keep_first n k rs"
proof (induction rs arbitrary: n)
  case Nil
  show ?case by simp
next
  case (Cons r rs)
  show ?case
  proof (cases n)
    case 0
    then show ?thesis using Cons.IH [of 0] by simp
  next
    case (Suc m)
    have e: "int (Suc m) - 1 = int m" by simp
    show ?thesis using Suc Cons.IH [of m] Cons.IH [of "Suc m"] by (simp del: of_nat_Suc add: e)
  qed
qed

lemma del_records_below: "i < - 1 \<Longrightarrow> del_records i k rs = rs"
  by (induction rs arbitrary: i) auto

lemma del_error_below: "i < - 1 \<Longrightarrow> del_error i k rs e = e"
  by (induction rs arbitrary: i) auto

lemma del_error_all:
  "i = 0 \<or> i = - 1 \<Longrightarrow> del_error i k rs e = (if values_of k rs = [] then e else OT_ERROR_NONE)"
  by (induction rs arbitrary: e) (auto simp: values_of_def)

lemma del_error_eq:
  "del_error i k rs e =
     (if (i = - 1 \<and> 0 < length (values_of k rs)) \<or> (0 \<le> i \<and> nat i < length (values_of k rs))
      then OT_ERROR_NONE else e)"
proof (induction rs arbitrary: i e)
  case Nil
  show ?case by (simp add: values_of_def)
next
  case (Cons r rs)
  show ?case
  proof (cases "fst r = k")
    case False
    then show ?thesis using Cons.IH [of i e] by (simp add: values_of_def)
  next
    case True
    then have vs: "values_of k (r # rs) = snd r # values_of k rs"
      by (simp add: values_of_def)
    show ?thesis
    proof (cases "i = 0 \<or> i = - 1")
      case True
      then show ?thesis using \<open>fst r = k\<close> Cons.IH [of i OT_ERROR_NONE] unfolding vs by auto
    next
      case False
      then show ?thesis using \<open>fst r = k\<close> Cons.IH [of "i - 1" e] unfolding vs by auto
    qed
  qed
qed

lemma values_of_keep_first: "values_of k (keep_first n k rs) = take n (values_of k rs)"
  by (induction rs arbitrary: n) (auto simp: values_of_def split: nat.splits)

lemma others_keep_first:
  "filter (\<lambda>r. fst r \<noteq> k) (keep_first n k rs) = filter (\<lambda>r. fst r \<noteq> k) rs"
  by (induction rs arbitrary: n) (auto split: nat.splits)

lemma valid_store_del_records: "valid_store rs \<Longrightarrow> valid_store (del_records i k rs)"
  by (induction i k rs rule: del_records.induct) auto

lemma Init_fd_file:
  "data_file s = Some bytes \<Longrightarrow> fd_file (otPosixSecureSettingsInit s) = bytes"
  by (simp add: otPosixSecureSettingsInit_def)

subsection \<open>Index 0 and index -1\<close>

lemma Delete_loop_0_all:
  "Delete_loop f offset pos k 0 e buffer lim swap =
   Delete_loop f offset pos k (- 1) e buffer lim swap"
proof (induction "length f - offset" arbitrary: offset pos k e buffer swap rule: less_induct)
  case less
  show ?case
  proof (cases "offset < length f")
    case False
    then show ?thesis by (simp add: Delete_loop_end)
  next
    case True
    have ih: "Delete_loop f o' p k' 0 e' b lim sw = Delete_loop f o' p k' (- 1) e' b lim sw"
      if "offset < o'" for o' p k' e' b sw
      using True that by (intro less.hyps) arith
    show ?thesis
      unfolding Delete_loop.simps [of f offset pos k 0 e buffer lim swap]
        Delete_loop.simps [of f offset pos k "- 1" e buffer lim swap]
      by (simp add: ih Let_def split: prod.splits)
  qed
qed

subsection \<open>The loop of Get on a malformed tail\<close>

lemma Get_loop_partial_header:
  assumes "0 < length tail" and "length tail < 4"
  shows "Get_loop (pre @ tail) (length pre) (length pre) k i aValue aValueLength =
           (OT_ERROR_NOT_FOUND, aValue, aValueLength)"
proof -
  have "length (fd_read (pre @ tail) (length pre) 2) \<noteq> 2 \<or>
        length (fd_read (pre @ tail) (length pre + 2) 2) \<noteq> 2"
    using assms by (auto simp: fd_read_def)
  then show ?thesis
    by (subst Get_loop.simps) (auto simp: Let_def)
qed

lemma Get_loop_overrun:
  assumes "length p < unat l'"
  shows "Get_loop (pre @ u16_bytes k' @ u16_bytes l' @ p) (length pre) (length pre) k i aValue aValueLength =
           (if k' = k \<and> i = 0 then deliver_short l' p aValue aValueLength
            else (OT_ERROR_NOT_FOUND, aValue, aValueLength))"
proof -
  let ?f = "pre @ u16_bytes k' @ u16_bytes l' @ p"
  have lt: "length pre < length ?f"
    by simp
  have nxt: "Get_loop ?f (length pre + 4 + unat l') (length pre + 4 + unat l') k j aValue aValueLength =
          (OT_ERROR_NOT_FOUND, aValue, aValueLength)" for j
    using assms by (intro Get_loop_end) simp
  have both:
    "(if length (take (unat (if l' \<le> cap then l' else cap)) p) \<noteq> unat (if l' \<le> cap then l' else cap)
      then (OT_ERROR_NONE, Some (buf_store (take (unat (if l' \<le> cap then l' else cap)) p) buf), Some cap)
      else (OT_ERROR_NONE, Some (buf_store (take (unat (if l' \<le> cap then l' else cap)) p) buf), Some l')) =
     (if unat cap \<le> length p
      then (OT_ERROR_NONE, Some (buf_store (take (unat cap) p) buf), Some l')
      else (OT_ERROR_NONE, Some (buf_store p buf), Some cap))" for cap buf
    using assms by (cases "l' \<le> cap"; cases "unat cap \<le> length p") (auto simp: word_le_nat_alt)
  show ?thesis
  proof (cases "k' = k \<and> i = 0")
    case False
    then show ?thesis
      apply (subst Get_loop.simps)
      apply (simp only: lt if_True fd_read_key fd_read_len Let_def bytes_u16_u16_bytes nxt)
      apply auto
      done
  next
    case True
    have "Get_loop ?f (length pre) (length pre) k i aValue aValueLength =
          (case aValueLength of
             None \<Rightarrow> (OT_ERROR_NONE, aValue, None)
           | Some cap \<Rightarrow>
               (case aValue of
                  None \<Rightarrow> (OT_ERROR_NONE, None, Some l')
                | Some buf \<Rightarrow>
                    (if length (take (unat (if l' \<le> cap then l' else cap)) p) \<noteq> unat (if l' \<le> cap then l' else cap)
                     then (OT_ERROR_NONE, Some (buf_store (take (unat (if l' \<le> cap then l' else cap)) p) buf), Some cap)
                     else (OT_ERROR_NONE, Some (buf_store (take (unat (if l' \<le> cap then l' else cap)) p) buf), Some l'))))"
      apply (subst Get_loop.simps)
      apply (simp only: lt if_True fd_read_key fd_read_len fd_read_payload Let_def bytes_u16_u16_bytes)
      using True apply simp
      done
    also have "\<dots> = deliver_short l' p aValue aValueLength"
      unfolding both deliver_short_def ..
    finally show ?thesis using True by simp
  qed
qed

subsection \<open>Single records and the states of the examples\<close>

lemma encode_single: "length v = unat l \<Longrightarrow> u16_bytes k @ u16_bytes l @ v = encode_store [(k, v)]"
  by (simp add: encode_record_def)

lemma valid_single: "length v = unat (l :: u16) \<Longrightarrow> valid_store [(k, v)]"
  using unsigned_less [of l, where 'a = nat] by simp

lemma valid_values:
  "valid_store rs \<Longrightarrow> n < length (values_of k rs) \<Longrightarrow> length (values_of k rs ! n) \<le> 65535"
proof -
  assume v: "valid_store rs" and n: "n < length (values_of k rs)"
  then have "values_of k rs ! n \<in> snd ` set rs"
    using nth_mem [OF n] by (auto simp: values_of_def)
  with v show ?thesis
    by (auto simp: valid_store_def list_all_iff)
qed

lemma Init_store_state [simp]:
  "otPosixSecureSettingsInit (store_state a b) = store_state b b"
  by (simp add: otPosixSecureSettingsInit_def store_state_def Let_def)

lemma Get_store_state:
  "valid_store a \<Longrightarrow>
   otPosixSecureSettingsGet (store_state a b) k i aValue aValueLength =
     (if 0 \<le> i \<and> nat i < length (values_of k a)
      then deliver (values_of k a ! nat i) aValue aValueLength
      else (OT_ERROR_NOT_FOUND, aValue, aValueLength))"
  by (rule Get_records) (simp_all add: store_state_def)

lemma Delete_store_state:
  "valid_store a \<Longrightarrow> length (encode_store a) \<le> 1024 \<Longrightarrow>
   otPosixSecureSettingsDelete (store_state a b) k i =
     (del_error i k a OT_ERROR_NOT_FOUND, store_state a (del_records i k a))"
  by (subst Delete_records [of a]) (simp_all add: store_state_def)

lemma Set_store_state:
  "valid_store a \<Longrightarrow> length (encode_store a) \<le> 1024 \<Longrightarrow> length v \<le> 1020 \<Longrightarrow>
   otPosixSecureSettingsSet (store_state a b) k v (of_nat (length v)) =
     Some (OT_ERROR_NONE, store_state a [(k, v)])"
proof -
  assume a: "valid_store a" "length (encode_store a) \<le> 1024" and v: "length v \<le> 1020"
  have u: "unat (of_nat (length v) :: u16) = length v"
    using v by (intro unat_len16) simp
  have l: "swap_limit (store_state a b) = 1024"
    by (simp add: store_state_def)
  show ?thesis
    unfolding Set_eq u l Delete_store_state [OF a]
    using v by (simp add: store_state_def encode_record_def)
qed

subsection \<open>Deletion on a well-formed store\<close>

lemma Delete_keeps_first:
  assumes "valid_store rs" and "fd_file s = encode_store rs"
    and "length (fd_file s) \<le> swap_limit s"
  shows "otPosixSecureSettingsDelete s aKey (int n) =
     (if n < length (values_of aKey rs) then OT_ERROR_NONE else OT_ERROR_NOT_FOUND,
      s\<lparr>data_file := Some (encode_store (keep_first n aKey rs)), swap_file := None\<rparr>)"
  unfolding Delete_records [OF assms] by (simp add: del_error_eq del_records_nat)

lemma valid_store_keep_first: "valid_store rs \<Longrightarrow> valid_store (keep_first n k rs)"
  using valid_store_del_records [of rs "int n" k] by (simp add: del_records_nat)

lemma Get_after_Delete_reopened:
  assumes "valid_store rs" and "fd_file s = encode_store rs"
    and "length (fd_file s) \<le> swap_limit s"
    and "n < length (values_of aKey rs)"
  shows "otPosixSecureSettingsGet
           (otPosixSecureSettingsInit (snd (otPosixSecureSettingsDelete s aKey (int n))))
           aKey (int n) aValue aValueLength = (OT_ERROR_NOT_FOUND, aValue, aValueLength)"
    and "0 < n \<Longrightarrow> otPosixSecureSettingsGet
           (otPosixSecureSettingsInit (snd (otPosixSecureSettingsDelete s aKey (int n))))
           aKey (int n - 1) aValue aValueLength = deliver (values_of aKey rs ! (n - 1)) aValue aValueLength"
proof -
  let ?s' = "otPosixSecureSettingsInit (snd (otPosixSecureSettingsDelete s aKey (int n)))"
  have fd: "fd_file ?s' = encode_store (keep_first n aKey rs)"
    unfolding Delete_keeps_first [OF assms(1-3)] by (simp add: Init_fd_file)
  have v: "valid_store (keep_first n aKey rs)"
    using assms(1) by (rule valid_store_keep_first)
  show "otPosixSecureSettingsGet ?s' aKey (int n) aValue aValueLength = (OT_ERROR_NOT_FOUND, aValue, aValueLength)"
    unfolding Get_records [OF v fd] by (simp add: values_of_keep_first)
  show "otPosixSecureSettingsGet ?s' aKey (int n - 1) aValue aValueLength =
          deliver (values_of aKey rs ! (n - 1)) aValue aValueLength" if "0 < n"
    unfolding Get_records [OF v fd] using that assms(4)
    by (simp add: values_of_keep_first nat_diff_distrib)
qed

subsection \<open>Lookup past the complete records\<close>

lemma Get_past_records:
  assumes "valid_store rs" and "fd_file s = encode_store rs @ tail"
    and "\<not> (0 \<le> i \<and> nat i < length (values_of k rs))"
  shows "otPosixSecureSettingsGet s k i aValue aValueLength =
           Get_loop (encode_store rs @ tail) (length (encode_store rs)) (length (encode_store rs)) k
             (i - int (length (values_of k rs))) aValue aValueLength"
  using Get_loop_records [OF assms(1), of "[]" tail k i aValue aValueLength] assms(3)
  by (simp add: otPosixSecureSettingsGet_def assms(2))

subsection \<open>Deletion on a store cut short\<close>

lemma Delete_copy_done: "Delete_copy f pos 0 buffer lim swap = (True, pos, buffer, swap)"
  by (subst Delete_copy.simps) simp

lemma Delete_copy_short:
  assumes "0 < length p" and "length p < len" and "len \<le> 512" and "len \<le> length buffer"
    and "length swap + len \<le> lim"
  shows "Delete_copy (pre @ p) (length pre) len buffer lim swap =
           (True, length pre + length p, buf_store p buffer, swap @ take len (buf_store p buffer))"
proof -
  have c: "(if 512 \<le> len then 512 else len) = len"
    using assms(3) by simp
  have r: "fd_read (pre @ p) (length pre) len = p"
    using assms(2) by (simp add: fd_read_def)
  have "length (take len (buf_store p buffer)) = len"
    using assms(2,4) by (simp add: buf_store_def)
  then have w: "fd_write lim swap (take len (buf_store p buffer)) = (swap @ take len (buf_store p buffer), len)"
    using assms(5) by (subst fd_write_fits) simp_all
  show ?thesis
    apply (subst Delete_copy.simps)
    apply (simp only: c r w Let_def prod.case)
    using assms(1,2) apply (simp add: Delete_copy_done)
    done
qed

lemma Delete_loop_short_tail:
  assumes "\<not> (k' = k \<and> (i = 0 \<or> i = - 1))"
    and "0 < length p" and "length p < unat l'" and "unat l' \<le> 512" and "length buffer = 512"
    and "length swap + 4 + unat l' \<le> lim"
  shows "Delete_loop (pre @ u16_bytes k' @ u16_bytes l' @ p) (length pre) (length pre) k i e buffer lim swap =
           (True, e, swap @ u16_bytes k' @ u16_bytes l' @ take (unat l') (buf_store p buffer))"
proof -
  let ?f = "pre @ u16_bytes k' @ u16_bytes l' @ p"
  have lt: "length pre < length ?f"
    by simp
  have w1: "fd_write lim swap (u16_bytes k') = (swap @ u16_bytes k', 2)"
    using assms(6) by (subst fd_write_fits) simp_all
  have w2: "fd_write lim (swap @ u16_bytes k') (u16_bytes l') = (swap @ u16_bytes k' @ u16_bytes l', 2)"
    using assms(6) by (subst fd_write_fits) simp_all
  have cp: "Delete_copy ?f (length pre + 4) (unat l') buffer lim (swap @ u16_bytes k' @ u16_bytes l') =
          (True, length pre + 4 + length p, buf_store p buffer,
           swap @ u16_bytes k' @ u16_bytes l' @ take (unat l') (buf_store p buffer))"
    using Delete_copy_short [of p "unat l'" buffer "swap @ u16_bytes k' @ u16_bytes l'" lim
        "pre @ u16_bytes k' @ u16_bytes l'"] assms
    by (simp add: add.assoc)
  have en: "Delete_loop ?f (length pre + 4 + unat l') q k j e b lim sw = (True, e, sw)" for q j b sw
    using assms(3) by (intro Delete_loop_end) simp
  show ?thesis
    apply (subst Delete_loop.simps)
    apply (simp only: lt if_True)
    apply (simp only: fd_read_key fd_read_len Let_def bytes_u16_u16_bytes w1 w2 prod.case cp en)
    using assms(1) apply auto
    done
qed

lemma Delete_short_header:
  assumes "0 < length (fd_file s)" and "length (fd_file s) < 4"
  shows "otPosixSecureSettingsDelete s k i = (OT_ERROR_NOT_FOUND, s\<lparr>swap_file := Some []\<rparr>)"
proof -
  have "length (fd_read (fd_file s) 0 2) \<noteq> 2 \<or> length (fd_read (fd_file s) (0 + 2) 2) \<noteq> 2"
    using assms by (auto simp: fd_read_def)
  then have "Delete_loop (fd_file s) 0 0 k i OT_ERROR_NOT_FOUND b (swap_limit s) [] =
               (False, OT_ERROR_NOT_FOUND, [])" for b
    using assms(1) by (subst Delete_loop.simps) (auto simp: Let_def)
  then show ?thesis
    by (simp add: otPosixSecureSettingsDelete_def)
qed

lemma Delete_empty_payload_read:
  assumes "fd_file s = u16_bytes k' @ u16_bytes l'" and "0 < unat l'" and "k' \<noteq> k"
    and "4 \<le> swap_limit s"
  shows "otPosixSecureSettingsDelete s k i =
           (OT_ERROR_NOT_FOUND, s\<lparr>swap_file := Some (u16_bytes k' @ u16_bytes l')\<rparr>)"
proof -
  let ?f = "[] @ u16_bytes k' @ u16_bytes l' @ []"
  have lt: "length ([] :: byte list) < length ?f"
    by simp
  have w1: "fd_write (swap_limit s) [] (u16_bytes k') = ([] @ u16_bytes k', 2)"
    using assms(4) by (subst fd_write_fits) simp_all
  have w2: "fd_write (swap_limit s) ([] @ u16_bytes k') (u16_bytes l') = (u16_bytes k' @ u16_bytes l', 2)"
    using assms(4) by (subst fd_write_fits) simp_all
  have cp: "Delete_copy ?f (length ([] :: byte list) + 4) (unat l') b (swap_limit s) sw =
              (False, length ([] :: byte list) + 4, b, sw)" for b sw
    using assms(2) by (subst Delete_copy.simps) (simp add: fd_read_def Let_def)
  have "Delete_loop ?f (length ([] :: byte list)) (length ([] :: byte list)) k i OT_ERROR_NOT_FOUND b
          (swap_limit s) [] = (False, OT_ERROR_NOT_FOUND, u16_bytes k' @ u16_bytes l')" for b
    apply (subst Delete_loop.simps)
    apply (simp only: lt if_True)
    apply (simp only: fd_read_key fd_read_len Let_def bytes_u16_u16_bytes w1 w2 prod.case cp)
    using assms(3) apply auto
    done
  then show ?thesis
    by (simp add: otPosixSecureSettingsDelete_def assms(1))
qed

lemma Delete_short_write:
  assumes "fd_file s = u16_bytes k' @ u16_bytes l' @ p" and "k' \<noteq> k" and "swap_limit s < 2"
  shows "otPosixSecureSettingsDelete s k i =
           (OT_ERROR_NOT_FOUND, s\<lparr>swap_file := Some (take (swap_limit s) (u16_bytes k'))\<rparr>)"
proof -
  let ?f = "[] @ u16_bytes k' @ u16_bytes l' @ p"
  have lt: "length ([] :: byte list) < length ?f"
    by simp
  have w1: "fd_write (swap_limit s) [] (u16_bytes k') = (take (swap_limit s) (u16_bytes k'), swap_limit s)"
    using assms(3) by (simp add: fd_write_def min_def Let_def)
  have "Delete_loop ?f (length ([] :: byte list)) (length ([] :: byte list)) k i OT_ERROR_NOT_FOUND b
          (swap_limit s) [] = (False, OT_ERROR_NOT_FOUND, take (swap_limit s) (u16_bytes k'))" for b
    apply (subst Delete_loop.simps)
    apply (simp only: lt if_True)
    apply (simp only: fd_read_key fd_read_len Let_def bytes_u16_u16_bytes w1 prod.case)
    using assms(2,3) apply auto
    done
  then show ?thesis
    by (simp add: otPosixSecureSettingsDelete_def assms(1))
qed

section \<open>The claims\<close>

text \<open>
  C1. Whatever the state, a call of Set (and so of Add) that returns leaves under the store's
  path a file that holds exactly the one record \<open>(aKey, value)\<close>, where the value is the
  first \<open>aValueLength\<close> bytes of \<open>aValue\<close>: nothing of what the store held before is kept.
  A descriptor opened on that file finds the record under \<open>(aKey, 0)\<close> and nothing under
  any other key or index.
\<close>

theorem Set_replaces_store:
  assumes "otPosixSecureSettingsSet s aKey aValue aValueLength = Some (e, s')"
  shows "e = OT_ERROR_NONE \<and>
         otPosixSecureSettingsAdd s aKey aValue aValueLength = Some (e, s') \<and>
         length (take (unat aValueLength) aValue) = unat aValueLength \<and>
         data_file s' = Some (encode_store [(aKey, take (unat aValueLength) aValue)]) \<and>
         (\<forall>k i c. otPosixSecureSettingsGet (otPosixSecureSettingsInit s') k i None (Some c) =
            (if k = aKey \<and> i = 0 then (OT_ERROR_NONE, None, Some aValueLength)
             else (OT_ERROR_NOT_FOUND, None, Some c)))"
proof -
  let ?v = "take (unat aValueLength) aValue"
  from assms have fits: "unat aValueLength \<le> length aValue"
    and e: "e = OT_ERROR_NONE"
    and s': "s' = (snd (otPosixSecureSettingsDelete s aKey (- 1)))
               \<lparr>data_file := Some (u16_bytes aKey @ u16_bytes aValueLength @ ?v), swap_file := None\<rparr>"
    by (simp_all add: Set_eq split: if_splits)
  have len: "length ?v = unat aValueLength"
    using fits by simp
  have d: "data_file s' = Some (encode_store [(aKey, ?v)])"
    unfolding s' using encode_single [OF len, of aKey] by simp
  have fd: "fd_file (otPosixSecureSettingsInit s') = encode_store [(aKey, ?v)]"
    using d by (rule Init_fd_file)
  have g: "otPosixSecureSettingsGet (otPosixSecureSettingsInit s') k i None (Some c) =
            (if k = aKey \<and> i = 0 then (OT_ERROR_NONE, None, Some aValueLength)
             else (OT_ERROR_NOT_FOUND, None, Some c))" for k i c
    unfolding Get_records [OF valid_single [OF len] fd]
    by (auto simp: values_of_def deliver_def len simp del: length_take)
  show ?thesis
    using e assms len d g by (simp add: otPosixSecureSettingsAdd_def)
qed

theorem Set_replaces_store_witness:
  "otPosixSecureSettingsSet (store_state [(2, [7])] [(2, [7])]) 1 [65, 66] 2 =
     Some (OT_ERROR_NONE, store_state [(2, [7])] [(1, [65, 66])]) \<and>
   data_file (store_state [(2, [7])] [(1, [65, 66])]) = Some (encode_store [(1, [65, 66])]) \<and>
   otPosixSecureSettingsGet (otPosixSecureSettingsInit (store_state [(2, [7])] [(1, [65, 66])])) 2 0
     None (Some 0) = (OT_ERROR_NOT_FOUND, None, Some 0)"
proof -
  have h: "otPosixSecureSettingsSet (store_state [(2, [7])] [(2, [7])]) 1 [65, 66] 2 =
     Some (OT_ERROR_NONE, store_state [(2, [7])] [(1, [65, 66])])"
    using Set_store_state [of "[(2, [7])]" "[65, 66]" "[(2, [7])]" 1] by simp
  show ?thesis
    using h Set_replaces_store [OF h] by simp
qed

text \<open>
  C2, as stated, fails. From the empty store, \<open>add(1, "AB")\<close> and \<open>add(1, "CD")\<close> leave
  under the store's path a file with the one record \<open>(1, "CD")\<close>, since Add is Set and Set
  writes nothing but the new record; the descriptor is still on the empty file it was opened
  on. \<open>get(1, 1)\<close> returns NotFound, not \<open>"CD"\<close>, and \<open>get(1, 0)\<close> does not return \<open>"AB"\<close>:
  it returns NotFound on the descriptor as it is, and \<open>"CD"\<close> once the store is opened again.
\<close>

theorem add_add_get_counterexample:
  "otPosixSecureSettingsAdd (store_state [] []) 1 [65, 66] 2 =
     Some (OT_ERROR_NONE, store_state [] [(1, [65, 66])]) \<and>
   otPosixSecureSettingsAdd (store_state [] [(1, [65, 66])]) 1 [67, 68] 2 =
     Some (OT_ERROR_NONE, store_state [] [(1, [67, 68])]) \<and>
   otPosixSecureSettingsGet (store_state [] [(1, [67, 68])]) 1 1 (Some [0, 0]) (Some 2) =
     (OT_ERROR_NOT_FOUND, Some [0, 0], Some 2) \<and>
   otPosixSecureSettingsGet (store_state [] [(1, [67, 68])]) 1 0 (Some [0, 0]) (Some 2) =
     (OT_ERROR_NOT_FOUND, Some [0, 0], Some 2) \<and>
   otPosixSecureSettingsGet (otPosixSecureSettingsInit (store_state [] [(1, [67, 68])])) 1 1
     (Some [0, 0]) (Some 2) = (OT_ERROR_NOT_FOUND, Some [0, 0], Some 2) \<and>
   otPosixSecureSettingsGet (otPosixSecureSettingsInit (store_state [] [(1, [67, 68])])) 1 0
     (Some [0, 0]) (Some 2) = (OT_ERROR_NONE, Some [67, 68], Some 2)"
proof -
  have a1: "otPosixSecureSettingsSet (store_state [] []) 1 [65, 66] (of_nat (length [65 :: byte, 66])) =
     Some (OT_ERROR_NONE, store_state [] [(1, [65, 66])])"
    by (rule Set_store_state) simp_all
  have a2: "otPosixSecureSettingsSet (store_state [] [(1, [65, 66])]) 1 [67, 68] (of_nat (length [67 :: byte, 68])) =
     Some (OT_ERROR_NONE, store_state [] [(1, [67, 68])])"
    by (rule Set_store_state) simp_all
  show ?thesis
    using a1 a2
    by (simp add: otPosixSecureSettingsAdd_def Get_store_state values_of_def deliver_def buf_store_def)
qed

text \<open>
  C2, amended. From the empty store, with the store opened again after each call that
  changes it: after \<open>add(1, "AB")\<close> and \<open>add(1, "CD")\<close> the store holds the one record
  \<open>(1, "CD")\<close>, \<open>get(1, 0)\<close> returns \<open>"CD"\<close> and \<open>get(1, 1)\<close> returns NotFound;
  \<open>delete(1, 1)\<close> then returns NotFound and leaves the store as it is, so \<open>get(1, 1)\<close>
  returns NotFound and \<open>get(1, 0)\<close> still returns \<open>"CD"\<close>.
\<close>

theorem add_add_get_reopened:
  "otPosixSecureSettingsAdd (store_state [] []) 1 [65, 66] 2 =
     Some (OT_ERROR_NONE, store_state [] [(1, [65, 66])]) \<and>
   otPosixSecureSettingsAdd (otPosixSecureSettingsInit (store_state [] [(1, [65, 66])])) 1 [67, 68] 2 =
     Some (OT_ERROR_NONE, store_state [(1, [65, 66])] [(1, [67, 68])]) \<and>
   otPosixSecureSettingsGet (otPosixSecureSettingsInit (store_state [(1, [65, 66])] [(1, [67, 68])])) 1 0
     (Some [0, 0]) (Some 2) = (OT_ERROR_NONE, Some [67, 68], Some 2) \<and>
   otPosixSecureSettingsGet (otPosixSecureSettingsInit (store_state [(1, [65, 66])] [(1, [67, 68])])) 1 1
     (Some [0, 0]) (Some 2) = (OT_ERROR_NOT_FOUND, Some [0, 0], Some 2) \<and>
   otPosixSecureSettingsDelete (otPosixSecureSettingsInit (store_state [(1, [65, 66])] [(1, [67, 68])])) 1 1 =
     (OT_ERROR_NOT_FOUND, store_state [(1, [67, 68])] [(1, [67, 68])]) \<and>
   otPosixSecureSettingsGet (otPosixSecureSettingsInit (store_state [(1, [67, 68])] [(1, [67, 68])])) 1 1
     (Some [0, 0]) (Some 2) = (OT_ERROR_NOT_FOUND, Some [0, 0], Some 2) \<and>
   otPosixSecureSettingsGet (otPosixSecureSettingsInit (store_state [(1, [67, 68])] [(1, [67, 68])])) 1 0
     (Some [0, 0]) (Some 2) = (OT_ERROR_NONE, Some [67, 68], Some 2)"
proof -
  have a1: "otPosixSecureSettingsSet (store_state [] []) 1 [65, 66] (of_nat (length [65 :: byte, 66])) =
     Some (OT_ERROR_NONE, store_state [] [(1, [65, 66])])"
    by (rule Set_store_state) simp_all
  have a2: "otPosixSecureSettingsSet (store_state [(1, [65, 66])] [(1, [65, 66])]) 1 [67, 68]
       (of_nat (length [67 :: byte, 68])) =
     Some (OT_ERROR_NONE, store_state [(1, [65, 66])] [(1, [67, 68])])"
    by (rule Set_store_state) simp_all
  have d: "otPosixSecureSettingsDelete (store_state [(1, [67, 68])] [(1, [67, 68])]) 1 1 =
     (OT_ERROR_NOT_FOUND, store_state [(1, [67, 68])] [(1, [67, 68])])"
    by (subst Delete_store_state) simp_all
  show ?thesis
    using a1 a2 d
    by (simp add: otPosixSecureSettingsAdd_def Get_store_state values_of_def deliver_def buf_store_def)
qed

text \<open>
  C3. What Delete leaves under the store's path is as the claim says (lemma
  \<open>Delete_keeps_first\<close>: the first \<open>k\<close> occurrences of the key stay, the later ones go, the
  other keys are untouched), and on a descriptor opened on that file \<open>get(key, k)\<close> returns
  NotFound and \<open>get(key, k - 1)\<close> succeeds (lemma \<open>Get_after_Delete_reopened\<close>). But Delete
  does not move \<open>sSecureSettingsFd\<close> to the file it installs, so the get that follows reads
  the file from before the deletion. On the store \<open>(1, "A"), (1, "B")\<close>, \<open>delete(1, 1)\<close>
  succeeds and leaves \<open>(1, "A")\<close> under the path, and \<open>get(1, 1)\<close> afterwards still returns
  \<open>"B"\<close>; only on the store opened again does it return NotFound, and \<open>get(1, 0)\<close> the
  value \<open>"A"\<close>.
\<close>

theorem Get_after_Delete_stale:
  "otPosixSecureSettingsDelete (store_state [(1, [65]), (1, [66])] [(1, [65]), (1, [66])]) 1 1 =
     (OT_ERROR_NONE, store_state [(1, [65]), (1, [66])] [(1, [65])]) \<and>
   otPosixSecureSettingsGet (store_state [(1, [65]), (1, [66])] [(1, [65])]) 1 1 (Some [0]) (Some 1) =
     (OT_ERROR_NONE, Some [66], Some 1) \<and>
   otPosixSecureSettingsGet (otPosixSecureSettingsInit (store_state [(1, [65]), (1, [66])] [(1, [65])]))
     1 1 (Some [0]) (Some 1) = (OT_ERROR_NOT_FOUND, Some [0], Some 1) \<and>
   otPosixSecureSettingsGet (otPosixSecureSettingsInit (store_state [(1, [65]), (1, [66])] [(1, [65])]))
     1 0 (Some [0]) (Some 1) = (OT_ERROR_NONE, Some [65], Some 1)"
proof -
  let ?old = "[(1 :: u16, [65 :: byte]), (1, [66])]"
  let ?new = "[(1 :: u16, [65 :: byte])]"
  have deleted: "otPosixSecureSettingsDelete (store_state ?old ?old) 1 1 =
      (OT_ERROR_NONE, store_state ?old ?new)"
    by (subst Delete_store_state) simp_all
  have stale: "otPosixSecureSettingsGet (store_state ?old ?new) 1 1 (Some [0]) (Some 1) =
      (OT_ERROR_NONE, Some [66], Some 1)"
    by (subst Get_store_state) (simp_all add: values_of_def deliver_def buf_store_def)
  have reopened: "otPosixSecureSettingsGet (store_state ?new ?new) 1 i (Some [0]) (Some 1) =
      (if i = 0 then (OT_ERROR_NONE, Some [65], Some 1) else (OT_ERROR_NOT_FOUND, Some [0], Some 1))"
    for i
    by (subst Get_store_state) (auto simp add: values_of_def deliver_def buf_store_def)
  show ?thesis
    using deleted stale reopened [of 1] reopened [of 0] by simp
qed

text \<open>
  C4. A short read of a header, a payload read that delivers nothing, and a short write all
  leave Delete through \<open>exit\<close>, before \<open>rename\<close> (lemmas \<open>Delete_short_header\<close>,
  \<open>Delete_empty_payload_read\<close>, \<open>Delete_short_write\<close>). A payload read that delivers
  some bytes but fewer than asked for is accepted (\<open>rval > 0\<close>); \<open>count\<close> bytes of the
  buffer are written all the same and the file is installed. On a store whose only record
  has key 2, declares two payload bytes and has one, \<open>delete(1, -1)\<close> replaces the five
  bytes under the store's path by six: the record with the byte that lay in the buffer
  appended.
\<close>

theorem Delete_short_read_installed:
  "otPosixSecureSettingsDelete
     \<lparr>fd_file = [2, 0, 2, 0, 65], data_file = Some [2, 0, 2, 0, 65], swap_file = None,
      swap_limit = 1024, stack_junk = [238, 238]\<rparr> 1 (- 1) =
   (OT_ERROR_NOT_FOUND,
     \<lparr>fd_file = [2, 0, 2, 0, 65], data_file = Some [2, 0, 2, 0, 65, 238], swap_file = None,
      swap_limit = 1024, stack_junk = [238, 238]\<rparr>)"
proof -
  have f: "[2, 0, 2, 0, 65] = [] @ u16_bytes 2 @ u16_bytes 2 @ [65 :: byte]"
    by (simp add: u16_bytes_def)
  have l: "Delete_loop ([] @ u16_bytes 2 @ u16_bytes 2 @ [65]) (length ([] :: byte list)) (length ([] :: byte list))
             1 (- 1) OT_ERROR_NOT_FOUND (take 512 ([238, 238] @ replicate 512 0)) 1024 [] =
           (True, OT_ERROR_NOT_FOUND,
            [] @ u16_bytes 2 @ u16_bytes 2 @
              take (unat (2 :: u16)) (buf_store [65] (take 512 ([238, 238] @ replicate 512 0))))"
    by (rule Delete_loop_short_tail) simp_all
  show ?thesis
    unfolding otPosixSecureSettingsDelete_def
    apply (simp only: posix_state.simps f)
    using l apply (simp add: buf_store_def u16_bytes_def)
    done
qed

text \<open>
  C5, as stated, fails: on the store with the one record \<open>(1, "A")\<close>, \<open>delete(1, 1)\<close>
  returns NotFound although a record has the key. Delete sets the error to Success only
  where it leaves a record out.
\<close>

theorem Delete_status_counterexample:
  "values_of 1 [(1, [65])] = [[65]] \<and>
   otPosixSecureSettingsDelete (store_state [(1, [65])] [(1, [65])]) 1 1 =
     (OT_ERROR_NOT_FOUND, store_state [(1, [65])] [(1, [65])])"
  by (simp add: Delete_store_state values_of_def)

text \<open>
  C5, amended. On a well-formed store that fits into the swap file, \<open>delete(key, index)\<close>
  returns Success exactly when it removes a record: when the index is \<open>-1\<close> and the key
  occurs, or when the index is at least 0 and below the number of occurrences of the key.
  In every other case it returns NotFound: when no record has the key, when the index is
  at least the number of occurrences, and when the index is below \<open>-1\<close>.
\<close>

theorem Delete_status:
  assumes "valid_store rs" and "fd_file s = encode_store rs"
    and "length (fd_file s) \<le> swap_limit s"
  shows "fst (otPosixSecureSettingsDelete s aKey aIndex) =
     (if (aIndex = - 1 \<and> 0 < length (values_of aKey rs)) \<or>
         (0 \<le> aIndex \<and> nat aIndex < length (values_of aKey rs))
      then OT_ERROR_NONE else OT_ERROR_NOT_FOUND)"
  unfolding Delete_records [OF assms] by (simp add: del_error_eq)

theorem Delete_status_witness:
  "valid_store [(1, [65]), (1, [66])] \<and>
   fst (otPosixSecureSettingsDelete (store_state [(1, [65]), (1, [66])] [(1, [65]), (1, [66])]) 1 1) = OT_ERROR_NONE \<and>
   fst (otPosixSecureSettingsDelete (store_state [(1, [65]), (1, [66])] [(1, [65]), (1, [66])]) 1 2) = OT_ERROR_NOT_FOUND \<and>
   fst (otPosixSecureSettingsDelete (store_state [(1, [65]), (1, [66])] [(1, [65]), (1, [66])]) 1 (- 2)) = OT_ERROR_NOT_FOUND \<and>
   fst (otPosixSecureSettingsDelete (store_state [(1, [65]), (1, [66])] [(1, [65]), (1, [66])]) 2 (- 1)) = OT_ERROR_NOT_FOUND"
proof -
  let ?rs = "[(1 :: u16, [65 :: byte]), (1, [66])]"
  have v: "valid_store ?rs"
    by simp
  have f: "fd_file (store_state ?rs ?rs) = encode_store ?rs"
    and l: "length (fd_file (store_state ?rs ?rs)) \<le> swap_limit (store_state ?rs ?rs)"
    by (simp_all add: store_state_def)
  show ?thesis
    using v Delete_status [OF v f l, of 1 1] Delete_status [OF v f l, of 1 2]
      Delete_status [OF v f l, of 1 "- 2"] Delete_status [OF v f l, of 2 "- 1"]
    by (simp add: values_of_def)
qed

text \<open>
  C6. On a well-formed store with a record \<open>v\<close> at \<open>(aKey, aIndex)\<close>, Get with a buffer and
  a capacity below the length of \<open>v\<close> overwrites the first capacity bytes of the buffer with
  the first capacity bytes of \<open>v\<close> and reports the length of \<open>v\<close>; with a capacity of at
  least that length it copies all of \<open>v\<close> and reports its length.
\<close>

theorem Get_truncates_copy:
  assumes "valid_store rs" and "fd_file s = encode_store rs"
    and "0 \<le> aIndex" and "nat aIndex < length (values_of aKey rs)"
    and "v = values_of aKey rs ! nat aIndex"
  shows "(unat cap < length v \<longrightarrow>
            otPosixSecureSettingsGet s aKey aIndex (Some buf) (Some cap) =
              (OT_ERROR_NONE, Some (take (unat cap) v @ drop (unat cap) buf), Some (of_nat (length v)))) \<and>
         (length v \<le> unat cap \<longrightarrow>
            otPosixSecureSettingsGet s aKey aIndex (Some buf) (Some cap) =
              (OT_ERROR_NONE, Some (v @ drop (length v) buf), Some (of_nat (length v)))) \<and>
         unat (of_nat (length v) :: u16) = length v"
proof -
  have "length v \<le> 65535"
    unfolding assms(5) using assms(1,4) by (rule valid_values)
  then have u: "unat (of_nat (length v) :: u16) = length v"
    by (rule unat_len16)
  have g: "otPosixSecureSettingsGet s aKey aIndex (Some buf) (Some cap) =
        (OT_ERROR_NONE, Some (buf_store (take (unat cap) v) buf), Some (of_nat (length v)))"
    unfolding Get_records [OF assms(1,2)] using assms(3,4,5) by (simp add: deliver_def)
  show ?thesis
    unfolding g using u by (simp add: buf_store_def min_def)
qed

theorem Get_truncates_copy_witness:
  "valid_store [(1, [65, 66, 67])] \<and>
   otPosixSecureSettingsGet (store_state [(1, [65, 66, 67])] [(1, [65, 66, 67])]) 1 0
     (Some [0, 0]) (Some 2) = (OT_ERROR_NONE, Some [65, 66], Some 3) \<and>
   otPosixSecureSettingsGet (store_state [(1, [65, 66, 67])] [(1, [65, 66, 67])]) 1 0
     (Some [0, 0, 0, 0]) (Some 4) = (OT_ERROR_NONE, Some [65, 66, 67, 0], Some 3)"
proof -
  have v: "valid_store [(1, [65, 66, 67])]"
    by simp
  have f: "fd_file (store_state [(1, [65, 66, 67])] [(1, [65, 66, 67])]) = encode_store [(1, [65, 66, 67])]"
    by (simp add: store_state_def)
  have i: "(0::int) \<le> 0" "nat 0 < length (values_of 1 [(1 :: u16, [65 :: byte, 66, 67])])"
    and e: "[65 :: byte, 66, 67] = values_of 1 [(1, [65, 66, 67])] ! nat 0"
    by (simp_all add: values_of_def)
  show ?thesis
    using v Get_truncates_copy [OF v f i e, of 2 "[0, 0]"]
      Get_truncates_copy [OF v f i e, of 4 "[0, 0, 0, 0]"]
    by simp
qed

text \<open>
  C7. For every key and every value of at most 65535 bytes: what Set writes is the key, the
  length and the value bytes, and a lookup on the file so written finds under that key a
  record with that length and exactly those bytes, and nothing under another key.
\<close>

theorem record_round_trip:
  assumes "length v \<le> 65535"
    and "otPosixSecureSettingsSet s k v (of_nat (length v)) = Some (e, s')"
  shows "data_file s' = Some (u16_bytes k @ u16_bytes (of_nat (length v)) @ v) \<and>
         unat (of_nat (length v) :: u16) = length v \<and>
         otPosixSecureSettingsGet (otPosixSecureSettingsInit s') k 0 (Some buf) (Some 65535) =
           (OT_ERROR_NONE, Some (v @ drop (length v) buf), Some (of_nat (length v))) \<and>
         (\<forall>k'. k' \<noteq> k \<longrightarrow>
            otPosixSecureSettingsGet (otPosixSecureSettingsInit s') k' 0 (Some buf) (Some 65535) =
              (OT_ERROR_NOT_FOUND, Some buf, Some 65535))"
proof -
  have u: "unat (of_nat (length v) :: u16) = length v"
    using assms(1) by (rule unat_len16)
  from assms(2) have d: "data_file s' = Some (u16_bytes k @ u16_bytes (of_nat (length v)) @ v)"
    by (auto simp add: Set_eq u split: if_splits)
  have fd: "fd_file (otPosixSecureSettingsInit s') = encode_store [(k, v)]"
    using d by (simp add: Init_fd_file encode_record_def)
  have vs: "valid_store [(k, v)]"
    using assms(1) by simp
  have c: "unat (65535 :: u16) = 65535"
    by simp
  show ?thesis
    unfolding Get_records [OF vs fd]
    using d u assms(1) by (auto simp: values_of_def deliver_def buf_store_def c)
qed

theorem record_round_trip_witness:
  "length [65 :: byte, 66] \<le> 65535 \<and>
   otPosixSecureSettingsSet (store_state [] []) 258 [65, 66] 2 =
     Some (OT_ERROR_NONE, store_state [] [(258, [65, 66])]) \<and>
   data_file (store_state [] [(258, [65, 66])]) = Some [2, 1, 2, 0, 65, 66] \<and>
   otPosixSecureSettingsGet (otPosixSecureSettingsInit (store_state [] [(258, [65, 66])])) 258 0
     (Some [0, 0, 0]) (Some 65535) = (OT_ERROR_NONE, Some [65, 66, 0], Some 2)"
proof -
  have l: "length [65 :: byte, 66] \<le> 65535"
    by simp
  have h: "otPosixSecureSettingsSet (store_state [] []) 258 [65, 66] (of_nat (length [65 :: byte, 66])) =
     Some (OT_ERROR_NONE, store_state [] [(258, [65, 66])])"
    by (rule Set_store_state) simp_all
  have b: "u16_bytes 258 = [2, 1]" "u16_bytes 2 = [2, 0]"
    by (simp_all add: u16_bytes_def)
  show ?thesis
    using l h record_round_trip [OF l h, of "[0, 0, 0]"] by (simp add: b)
qed

text \<open>
  C8. For every state and key, Delete with index 0 and Delete with index \<open>-1\<close> return the
  same error and the same state. On a well-formed store that fits into the swap file both
  leave under the store's path exactly the records of the other keys.
\<close>

theorem Delete_0_same_as_all:
  "otPosixSecureSettingsDelete s aKey 0 = otPosixSecureSettingsDelete s aKey (- 1) \<and>
   (valid_store rs \<and> fd_file s = encode_store rs \<and> length (fd_file s) \<le> swap_limit s \<longrightarrow>
      otPosixSecureSettingsDelete s aKey (- 1) =
        (if values_of aKey rs = [] then OT_ERROR_NOT_FOUND else OT_ERROR_NONE,
         s\<lparr>data_file := Some (encode_store (filter (\<lambda>r. fst r \<noteq> aKey) rs)), swap_file := None\<rparr>))"
proof -
  have "otPosixSecureSettingsDelete s aKey 0 = otPosixSecureSettingsDelete s aKey (- 1)"
    by (simp add: otPosixSecureSettingsDelete_def Delete_loop_0_all)
  moreover have "otPosixSecureSettingsDelete s aKey (- 1) =
        (if values_of aKey rs = [] then OT_ERROR_NOT_FOUND else OT_ERROR_NONE,
         s\<lparr>data_file := Some (encode_store (filter (\<lambda>r. fst r \<noteq> aKey) rs)), swap_file := None\<rparr>)"
    if "valid_store rs" "fd_file s = encode_store rs" "length (fd_file s) \<le> swap_limit s"
    unfolding Delete_records [OF that] by (simp add: del_records_all del_error_all)
  ultimately show ?thesis by blast
qed

theorem Delete_0_same_as_all_witness:
  "valid_store [(1, [65]), (2, [66]), (1, [67])] \<and>
   otPosixSecureSettingsDelete (store_state [(1, [65]), (2, [66]), (1, [67])] [(1, [65]), (2, [66]), (1, [67])]) 1 0 =
     (OT_ERROR_NONE, store_state [(1, [65]), (2, [66]), (1, [67])] [(2, [66])]) \<and>
   otPosixSecureSettingsDelete (store_state [(1, [65]), (2, [66]), (1, [67])] [(1, [65]), (2, [66]), (1, [67])]) 1 (- 1) =
     (OT_ERROR_NONE, store_state [(1, [65]), (2, [66]), (1, [67])] [(2, [66])])"
proof -
  let ?rs = "[(1 :: u16, [65 :: byte]), (2, [66]), (1, [67])]"
  have v: "valid_store ?rs"
    by simp
  have f: "fd_file (store_state ?rs ?rs) = encode_store ?rs"
    and l: "length (fd_file (store_state ?rs ?rs)) \<le> swap_limit (store_state ?rs ?rs)"
    by (simp_all add: store_state_def)
  show ?thesis
    using v f l Delete_0_same_as_all [of "store_state ?rs ?rs" 1 ?rs]
    by (simp add: values_of_def store_state_def)
qed

text \<open>
  C9, as stated, fails where the malformed tail is a record whose header is complete and
  is itself the occurrence asked for. On the store \<open>(1, "A")\<close> followed by a header with
  key 1 that declares three bytes, with one byte \<open>"B"\<close> after it, \<open>get(1, 1)\<close> returns
  Success: with null pointers, as a query for the length (it reports the declared 3), and
  with a buffer (it copies the byte \<open>"B"\<close>). On the store without the tail the same call
  returns NotFound, so the tail is not ignored. Get compares the key as soon as the header
  is read and looks at the payload only to copy it.
\<close>

theorem Get_malformed_tail_counterexample:
  "otPosixSecureSettingsGet
     \<lparr>fd_file = encode_store [(1, [65])] @ u16_bytes 1 @ u16_bytes 3 @ [66], data_file = None,
      swap_file = None, swap_limit = 0, stack_junk = []\<rparr> 1 1 None None =
     (OT_ERROR_NONE, None, None) \<and>
   otPosixSecureSettingsGet
     \<lparr>fd_file = encode_store [(1, [65])] @ u16_bytes 1 @ u16_bytes 3 @ [66], data_file = None,
      swap_file = None, swap_limit = 0, stack_junk = []\<rparr> 1 1 None (Some 0) =
     (OT_ERROR_NONE, None, Some 3) \<and>
   otPosixSecureSettingsGet
     \<lparr>fd_file = encode_store [(1, [65])] @ u16_bytes 1 @ u16_bytes 3 @ [66], data_file = None,
      swap_file = None, swap_limit = 0, stack_junk = []\<rparr> 1 1 (Some [0, 0, 0]) (Some 3) =
     (OT_ERROR_NONE, Some [66, 0, 0], Some 3) \<and>
   otPosixSecureSettingsGet
     \<lparr>fd_file = encode_store [(1, [65])], data_file = None,
      swap_file = None, swap_limit = 0, stack_junk = []\<rparr> 1 1 None None =
     (OT_ERROR_NOT_FOUND, None, None)"
proof -
  let ?rs = "[(1 :: u16, [65 :: byte])]"
  let ?s = "\<lparr>fd_file = encode_store ?rs @ u16_bytes 1 @ u16_bytes 3 @ [66], data_file = None,
      swap_file = None, swap_limit = 0, stack_junk = []\<rparr>"
  let ?t = "\<lparr>fd_file = encode_store ?rs, data_file = None,
      swap_file = None, swap_limit = 0, stack_junk = []\<rparr>"
  have v: "valid_store ?rs"
    by simp
  have f: "fd_file ?s = encode_store ?rs @ u16_bytes 1 @ u16_bytes 3 @ [66]"
    and g: "fd_file ?t = encode_store ?rs"
    by simp_all
  have i: "\<not> (0 \<le> (1 :: int) \<and> nat 1 < length (values_of 1 ?rs))"
    by (simp add: values_of_def)
  have p: "length [66 :: byte] < unat (3 :: u16)"
    by simp
  have tail: "otPosixSecureSettingsGet ?s 1 1 aValue aValueLength =
      deliver_short 3 [66] aValue aValueLength" for aValue aValueLength
    unfolding Get_past_records [OF v f i] Get_loop_overrun [OF p]
    by (simp add: values_of_def)
  have plain: "otPosixSecureSettingsGet ?t 1 1 None None = (OT_ERROR_NOT_FOUND, None, None)"
    unfolding Get_records [OF v g] by (simp add: values_of_def)
  show ?thesis
    unfolding tail plain by (simp add: deliver_short_def buf_store_def)
qed

text \<open>
  C9, amended. The file holds the complete records \<open>rs\<close> and then a malformed tail: one to
  three bytes of a header, or a complete header followed by fewer payload bytes than it
  declares. When the occurrence asked for is not among \<open>rs\<close>, and is not the record of that
  complete header either, Get returns NotFound and leaves both out-parameters as they were:
  the same answer as on the store without the tail. The error type has no other error to
  report.
\<close>

theorem Get_malformed_tail:
  assumes "valid_store rs"
    and "fd_file s = encode_store rs @ tail"
    and "\<not> (0 \<le> aIndex \<and> nat aIndex < length (values_of aKey rs))"
    and "(0 < length tail \<and> length tail < 4) \<or>
         (tail = u16_bytes k' @ u16_bytes l' @ p \<and> length p < unat l' \<and>
          \<not> (k' = aKey \<and> aIndex = int (length (values_of aKey rs))))"
  shows "otPosixSecureSettingsGet s aKey aIndex aValue aValueLength =
           (OT_ERROR_NOT_FOUND, aValue, aValueLength) \<and>
         otPosixSecureSettingsGet s aKey aIndex aValue aValueLength =
           otPosixSecureSettingsGet (s\<lparr>fd_file := encode_store rs\<rparr>) aKey aIndex aValue aValueLength"
proof -
  have "otPosixSecureSettingsGet s aKey aIndex aValue aValueLength =
           (OT_ERROR_NOT_FOUND, aValue, aValueLength)"
    using assms(4)
  proof
    assume "0 < length tail \<and> length tail < 4"
    then show ?thesis
      unfolding Get_past_records [OF assms(1-3)] by (intro Get_loop_partial_header) simp_all
  next
    assume t: "tail = u16_bytes k' @ u16_bytes l' @ p \<and> length p < unat l' \<and>
          \<not> (k' = aKey \<and> aIndex = int (length (values_of aKey rs)))"
    then have p: "length p < unat l'" by simp
    show ?thesis
      unfolding Get_past_records [OF assms(1-3)] using t Get_loop_overrun [OF p, of "encode_store rs" k' aKey]
      by auto
  qed
  moreover have "otPosixSecureSettingsGet (s\<lparr>fd_file := encode_store rs\<rparr>) aKey aIndex aValue aValueLength =
           (OT_ERROR_NOT_FOUND, aValue, aValueLength)"
    using assms(3) by (subst Get_records [OF assms(1), of _ aKey aIndex]) auto
  ultimately show ?thesis by simp
qed

theorem Get_malformed_tail_witness:
  "valid_store [(1, [65])] \<and>
   otPosixSecureSettingsGet
     \<lparr>fd_file = encode_store [(1, [65])] @ [1, 0, 9], data_file = None, swap_file = None,
      swap_limit = 0, stack_junk = []\<rparr> 1 1 (Some [0]) (Some 1) =
     (OT_ERROR_NOT_FOUND, Some [0], Some 1) \<and>
   otPosixSecureSettingsGet
     \<lparr>fd_file = encode_store [(1, [65])] @ u16_bytes 2 @ u16_bytes 3 @ [66], data_file = None,
      swap_file = None, swap_limit = 0, stack_junk = []\<rparr> 1 1 (Some [0]) (Some 1) =
     (OT_ERROR_NOT_FOUND, Some [0], Some 1)"
proof -
  let ?rs = "[(1 :: u16, [65 :: byte])]"
  let ?s1 = "\<lparr>fd_file = encode_store ?rs @ [1, 0, 9], data_file = None, swap_file = None,
      swap_limit = 0, stack_junk = []\<rparr>"
  let ?s2 = "\<lparr>fd_file = encode_store ?rs @ u16_bytes 2 @ u16_bytes 3 @ [66], data_file = None,
      swap_file = None, swap_limit = 0, stack_junk = []\<rparr>"
  have v: "valid_store ?rs"
    by simp
  have f1: "fd_file ?s1 = encode_store ?rs @ [1, 0, 9]"
    and f2: "fd_file ?s2 = encode_store ?rs @ u16_bytes 2 @ u16_bytes 3 @ [66]"
    by simp_all
  have i: "\<not> (0 \<le> (1::int) \<and> nat 1 < length (values_of 1 ?rs))"
    by (simp add: values_of_def)
  have t1: "(0 < length [1 :: byte, 0, 9] \<and> length [1 :: byte, 0, 9] < 4) \<or>
         ([1 :: byte, 0, 9] = u16_bytes 0 @ u16_bytes 0 @ [] \<and> length ([] :: byte list) < unat (0 :: u16) \<and>
          \<not> ((0 :: u16) = 1 \<and> (1 :: int) = int (length (values_of 1 ?rs))))"
    by simp
  have t2: "(0 < length (u16_bytes 2 @ u16_bytes 3 @ [66 :: byte]) \<and> length (u16_bytes 2 @ u16_bytes 3 @ [66 :: byte]) < 4) \<or>
         (u16_bytes 2 @ u16_bytes 3 @ [66 :: byte] = u16_bytes 2 @ u16_bytes 3 @ [66] \<and> length [66 :: byte] < unat (3 :: u16) \<and>
          \<not> ((2 :: u16) = 1 \<and> (1 :: int) = int (length (values_of 1 ?rs))))"
    by simp
  show ?thesis
    using v Get_malformed_tail [OF v f1 i t1, of "Some [0]" "Some 1"]
      Get_malformed_tail [OF v f2 i t2, of "Some [0]" "Some 1"]
    by simp
qed

text \<open>
  C10, as stated, fails for a capacity that the remaining bytes can fill: the header
  declares two bytes, one is there, and Get with capacity 1 copies that byte and sets the
  length to the declared 2.
\<close>

theorem Get_overrun_match_counterexample:
  "otPosixSecureSettingsGet
     \<lparr>fd_file = u16_bytes 1 @ u16_bytes 2 @ [65], data_file = None, swap_file = None,
      swap_limit = 0, stack_junk = []\<rparr> 1 0 (Some [0, 0]) (Some 1) =
     (OT_ERROR_NONE, Some [65, 0], Some 2)"
proof -
  have p: "length [65 :: byte] < unat (2 :: u16)"
    by simp
  show ?thesis
    using Get_loop_overrun [OF p, of "[]" 1 1 0 "Some [0, 0]" "Some 1"]
    by (simp add: otPosixSecureSettingsGet_def deliver_short_def buf_store_def)
qed

text \<open>
  C10, amended. The record asked for is the last one, and its header declares more payload
  bytes than follow it. Get with a buffer returns Success. When the capacity exceeds the
  number of bytes that follow, the buffer receives those bytes and the length stays at the
  capacity; otherwise the buffer receives capacity bytes and the length is set to the
  declared length.
\<close>

theorem Get_overrun_match:
  assumes "valid_store rs"
    and "fd_file s = encode_store rs @ u16_bytes aKey @ u16_bytes len @ p"
    and "length p < unat len"
    and "aIndex = int (length (values_of aKey rs))"
  shows "otPosixSecureSettingsGet s aKey aIndex (Some buf) (Some cap) =
     (if length p < unat cap then (OT_ERROR_NONE, Some (p @ drop (length p) buf), Some cap)
      else (OT_ERROR_NONE, Some (take (unat cap) p @ drop (unat cap) buf), Some len))"
proof -
  have i: "\<not> (0 \<le> aIndex \<and> nat aIndex < length (values_of aKey rs))"
    using assms(4) by simp
  show ?thesis
    unfolding Get_past_records [OF assms(1,2) i] Get_loop_overrun [OF assms(3)]
    using assms(4) by (simp add: deliver_short_def buf_store_def min_def)
qed

theorem Get_overrun_match_witness:
  "valid_store [(1, [65])] \<and>
   otPosixSecureSettingsGet
     \<lparr>fd_file = encode_store [(1, [65])] @ u16_bytes 1 @ u16_bytes 3 @ [66], data_file = None,
      swap_file = None, swap_limit = 0, stack_junk = []\<rparr> 1 1 (Some [0, 0, 0]) (Some 3) =
     (OT_ERROR_NONE, Some [66, 0, 0], Some 3) \<and>
   otPosixSecureSettingsGet
     \<lparr>fd_file = encode_store [(1, [65])] @ u16_bytes 1 @ u16_bytes 3 @ [66], data_file = None,
      swap_file = None, swap_limit = 0, stack_junk = []\<rparr> 1 1 (Some [0, 0, 0]) (Some 2) =
     (OT_ERROR_NONE, Some [66, 0, 0], Some 2) \<and>
   otPosixSecureSettingsGet
     \<lparr>fd_file = encode_store [(1, [65])] @ u16_bytes 1 @ u16_bytes 3 @ [66], data_file = None,
      swap_file = None, swap_limit = 0, stack_junk = []\<rparr> 1 1 (Some [0, 0, 0]) (Some 1) =
     (OT_ERROR_NONE, Some [66, 0, 0], Some 3)"
proof -
  let ?rs = "[(1 :: u16, [65 :: byte])]"
  let ?s = "\<lparr>fd_file = encode_store ?rs @ u16_bytes 1 @ u16_bytes 3 @ [66], data_file = None,
      swap_file = None, swap_limit = 0, stack_junk = []\<rparr>"
  have v: "valid_store ?rs"
    by simp
  have f: "fd_file ?s = encode_store ?rs @ u16_bytes 1 @ u16_bytes 3 @ [66]"
    by simp
  have p: "length [66 :: byte] < unat (3 :: u16)"
    by simp
  have i: "(1 :: int) = int (length (values_of 1 ?rs))"
    by (simp add: values_of_def)
  show ?thesis
    using v Get_overrun_match [OF v f p i, of "[0, 0, 0]" 3]
      Get_overrun_match [OF v f p i, of "[0, 0, 0]" 2]
      Get_overrun_match [OF v f p i, of "[0, 0, 0]" 1]
    by simp
qed

end
